theory Spec2Isabelle
  imports Main "HOL-Library.Multiset"
begin

section \<open>Data model: html.Node values in a store\<close>

text \<open>
  The package works on \<^verbatim>\<open>*html.Node\<close> pointers of \<^verbatim>\<open>golang.org/x/net/html\<close>.
  A pointer is \<open>ref option\<close>: \<open>None\<close> is \<^verbatim>\<open>nil\<close>, \<open>Some a\<close> is the address \<open>a\<close>.
  Go is memory safe, so every non-nil pointer refers to a node: the store is a total
  function from addresses to node values. The fields are those the package reads
  (\<^verbatim>\<open>DataAtom\<close> is never read and is left out).
\<close>

type_synonym ref = nat

datatype NodeType =
  ErrorNode | TextNode | DocumentNode | ElementNode | CommentNode | DoctypeNode

record Attribute =
  AttrNamespace :: string
  Key :: string
  Val :: string

record Node =
  Parent :: "ref option"
  FirstChild :: "ref option"
  LastChild :: "ref option"
  PrevSibling :: "ref option"
  NextSibling :: "ref option"
  Type :: NodeType
  Data :: string
  Namespace :: string
  Attr :: "Attribute list"

type_synonym heap = "ref \<Rightarrow> Node"

text \<open>The zero value of \<^verbatim>\<open>html.Node\<close> (all pointers nil, \<^verbatim>\<open>Type\<close> 0 is \<^verbatim>\<open>ErrorNode\<close>).\<close>

definition zero_Node :: Node where
  "zero_Node = \<lparr>Parent = None, FirstChild = None, LastChild = None, PrevSibling = None,
     NextSibling = None, Type = ErrorNode, Data = [], Namespace = [], Attr = []\<rparr>"

section \<open>Compare\<close>

text \<open>
  \<^verbatim>\<open>am := map[html.Attribute]struct{}{}; for _, a := range n1.Attr { am[a] = struct{}{} }\<close>
\<close>

definition attr_map :: "Attribute list \<Rightarrow> (Attribute \<rightharpoonup> unit)" where
  "attr_map as = fold (\<lambda>a am. am(a \<mapsto> ())) as Map.empty"

text \<open>\<^verbatim>\<open>for _, a := range n2.Attr { if _, ok := am[a]; !ok { return false } }; return true\<close>\<close>

fun attrs_present :: "(Attribute \<rightharpoonup> unit) \<Rightarrow> Attribute list \<Rightarrow> bool" where
  "attrs_present am [] = True"
| "attrs_present am (a # as) = (if am a = None then False else attrs_present am as)"

definition Compare :: "heap \<Rightarrow> ref option \<Rightarrow> ref option \<Rightarrow> bool" where
  "Compare h n1 n2 =
     (case n1 of None \<Rightarrow> False
      | Some a \<Rightarrow>
        (case n2 of None \<Rightarrow> False
         | Some b \<Rightarrow>
           if Type (h a) \<noteq> Type (h b) \<or> Data (h a) \<noteq> Data (h b) \<or>
              Namespace (h a) \<noteq> Namespace (h b)
           then False
           else attrs_present (attr_map (Attr (h a))) (Attr (h b))))"

section \<open>Match\<close>

text \<open>
  The loop follows \<^verbatim>\<open>Parent\<close> pointers; on a store whose parent links form a cycle
  it need not return, so the result is an option and \<open>None\<close> is "does not return".
\<close>

partial_function (option) Match :: "heap \<Rightarrow> ref option \<Rightarrow> ref option \<Rightarrow> bool option" where
  "Match h n1 n2 =
     (case n1 of
        None \<Rightarrow> (if n2 \<noteq> None then Some False else Some True)
      | Some a \<Rightarrow>
        (case n2 of
           None \<Rightarrow> Some True
         | Some b \<Rightarrow>
           if \<not> Compare h n1 n2 then Some False
           else Match h (Parent (h a)) (Parent (h b))))"

text \<open>The node reached from \<open>n\<close> after \<open>k\<close> steps along \<^verbatim>\<open>Parent\<close> (\<open>None\<close> once the chain has ended).\<close>

fun ancestor :: "heap \<Rightarrow> nat \<Rightarrow> ref option \<Rightarrow> ref option" where
  "ancestor h 0 n = n"
| "ancestor h (Suc k) n = (case n of None \<Rightarrow> None | Some a \<Rightarrow> ancestor h k (Parent (h a)))"

section \<open>Leaf\<close>

text \<open>
  \<^verbatim>\<open>Leaf\<close> allocates nodes (\<^verbatim>\<open>&html.Node{...}\<close>) and calls the parser, which allocates
  the parse tree. Memory is the store together with the next unused address; allocation
  writes the node there and moves on, so a new node never overwrites an old one.
\<close>

record mem =
  nodes :: heap
  top :: ref

definition new_Node :: "Node \<Rightarrow> mem \<Rightarrow> ref \<times> mem" where
  "new_Node nd m = (top m, m\<lparr>nodes := (nodes m)(top m := nd), top := Suc (top m)\<rparr>)"

text \<open>
  \<^verbatim>\<open>html.ParseFragment\<close> belongs to \<^verbatim>\<open>golang.org/x/net/html\<close>, not to this package: it is a
  parameter. Given the fragment, the context node and the memory it returns the slice of
  roots (whose elements \<^verbatim>\<open>Leaf\<close> tests against nil), the error (\<open>None\<close> is a nil error) and
  the memory with the parse tree in it.
\<close>

type_synonym 'e parser = "string \<Rightarrow> ref \<Rightarrow> mem \<Rightarrow> (ref option list \<times> 'e option) \<times> mem"

text \<open>\<^verbatim>\<open>for n.FirstChild != nil { n = n.FirstChild }; return n\<close>\<close>

partial_function (option) Leaf_descend :: "heap \<Rightarrow> ref \<Rightarrow> ref option" where
  "Leaf_descend h n =
     (case FirstChild (h n) of None \<Rightarrow> Some n | Some c \<Rightarrow> Leaf_descend h c)"

definition Leaf :: "'e parser \<Rightarrow> string \<Rightarrow> mem \<Rightarrow> (ref option \<times> mem) option" where
  "Leaf ParseFragment fragment m =
     (let (ctx, m1) = new_Node (zero_Node\<lparr>Type := ElementNode\<rparr>) m;
          ((ns, err), m2) = ParseFragment fragment ctx m1
      in if err \<noteq> None \<or> length ns = 0
         then (let (e, m3) = new_Node (zero_Node\<lparr>Type := ErrorNode\<rparr>) m2 in Some (Some e, m3))
         else (case hd ns of
                 None \<Rightarrow> Some (None, m2)
               | Some n \<Rightarrow> map_option (\<lambda>l. (Some l, m2)) (Leaf_descend (nodes m2) n)))"

section \<open>Next and Prev\<close>

text \<open>
  \<^verbatim>\<open>delta\<close> is a Go \<^verbatim>\<open>int\<close>. Its absolute value is at most the number of nodes on a
  parent chain, which the address space bounds far below the range of \<^verbatim>\<open>int\<close>, so it is
  modelled as an unbounded integer.

  \<open>Next_up\<close> is the loop \<^verbatim>\<open>for n.NextSibling == nil\<close> together with the two statements
  after it; a cyclic parent chain can keep it running, hence the option.
\<close>

partial_function (option) Next_up ::
  "heap \<Rightarrow> ref \<Rightarrow> ref option \<Rightarrow> int \<Rightarrow> (ref option \<times> int) option" where
  "Next_up h n root delta =
     (case NextSibling (h n) of
        None \<Rightarrow>
          (if Parent (h n) = None \<or> Some n = root then Some (None, delta)
           else (case Parent (h n) of
                   None \<Rightarrow> Some (None, delta)
                 | Some p \<Rightarrow> Next_up h p root (delta - 1)))
      | Some s \<Rightarrow> (if Some n = root then Some (None, delta) else Some (Some s, delta)))"

definition Next :: "heap \<Rightarrow> ref option \<Rightarrow> ref option \<Rightarrow> (ref option \<times> int) option" where
  "Next h n root =
     (case n of
        None \<Rightarrow> Some (None, 0)
      | Some a \<Rightarrow>
        (case FirstChild (h a) of
           Some c \<Rightarrow> Some (Some c, 0 + 1)
         | None \<Rightarrow> Next_up h a root 0))"

partial_function (option) Prev_up ::
  "heap \<Rightarrow> ref \<Rightarrow> ref option \<Rightarrow> int \<Rightarrow> (ref option \<times> int) option" where
  "Prev_up h n root delta =
     (case PrevSibling (h n) of
        None \<Rightarrow>
          (if Parent (h n) = None \<or> Some n = root then Some (None, delta)
           else (case Parent (h n) of
                   None \<Rightarrow> Some (None, delta)
                 | Some p \<Rightarrow> Prev_up h p root (delta - 1)))
      | Some s \<Rightarrow> (if Some n = root then Some (None, delta) else Some (Some s, delta)))"

definition Prev :: "heap \<Rightarrow> ref option \<Rightarrow> ref option \<Rightarrow> (ref option \<times> int) option" where
  "Prev h n root =
     (case n of
        None \<Rightarrow> Some (None, 0)
      | Some a \<Rightarrow>
        (case LastChild (h a) of
           Some c \<Rightarrow> Some (Some c, 0 + 1)
         | None \<Rightarrow> Prev_up h a root 0))"

text \<open>
  The traversal idiom of the package, \<^verbatim>\<open>for n := root; n != nil; n, delta = Next(n, root)\<close>,
  recorded: each visited node with the delta that \<^verbatim>\<open>Next\<close> returned on leaving it. The
  last entry holds the delta of the exhausted step, the one that returned nil.
\<close>

partial_function (option) Next_trace ::
  "heap \<Rightarrow> ref option \<Rightarrow> ref option \<Rightarrow> (ref \<times> int) list option" where
  "Next_trace h n root =
     (case n of
        None \<Rightarrow> Some []
      | Some a \<Rightarrow>
        Option.bind (Next h n root)
          (\<lambda>(n', delta). Option.bind (Next_trace h n' root) (\<lambda>tr. Some ((a, delta) # tr))))"

partial_function (option) Prev_trace ::
  "heap \<Rightarrow> ref option \<Rightarrow> ref option \<Rightarrow> (ref \<times> int) list option" where
  "Prev_trace h n root =
     (case n of
        None \<Rightarrow> Some []
      | Some a \<Rightarrow>
        Option.bind (Prev h n root)
          (\<lambda>(n', delta). Option.bind (Prev_trace h n' root) (\<lambda>tr. Some ((a, delta) # tr))))"

section \<open>Find and Flatten\<close>

partial_function (option) Find_loop ::
  "heap \<Rightarrow> ref option \<Rightarrow> ref option \<Rightarrow> ref option \<Rightarrow> ref list \<Rightarrow> ref list option" where
  "Find_loop h root n2 n result =
     (case n of
        None \<Rightarrow> Some result
      | Some a \<Rightarrow>
        Option.bind (Match h n n2)
          (\<lambda>matched. Option.bind (Next h n root)
             (\<lambda>(n', _). Find_loop h root n2 n' (if matched then result @ [a] else result))))"

definition Find :: "'e parser \<Rightarrow> ref option \<Rightarrow> string \<Rightarrow> mem \<Rightarrow> (ref list \<times> mem) option" where
  "Find ParseFragment root fragment m =
     Option.bind (Leaf ParseFragment fragment m)
       (\<lambda>(n2, m'). map_option (\<lambda>result. (result, m')) (Find_loop (nodes m') root n2 root []))"

partial_function (option) Flatten_loop ::
  "heap \<Rightarrow> ref option \<Rightarrow> ref option \<Rightarrow> string \<Rightarrow> string option" where
  "Flatten_loop h root n s =
     (case n of
        None \<Rightarrow> Some s
      | Some a \<Rightarrow>
        Option.bind (Next h n root)
          (\<lambda>(n', _). Flatten_loop h root n' (if Type (h a) = TextNode then s @ Data (h a) else s)))"

definition Flatten :: "heap \<Rightarrow> ref option \<Rightarrow> string option" where
  "Flatten h root = Flatten_loop h root root []"

section \<open>String and PrintTree\<close>

text \<open>
  Strings are byte lists, as in Go. \<open>Split_newline\<close> is \<^verbatim>\<open>strings.Split(str, "\n")\<close>: it
  always returns at least one piece. \<open>Trim\<close> is \<^verbatim>\<open>strings.Trim\<close> for a cutset of ASCII
  bytes, the only use the package makes of it.
\<close>

definition newline :: char where
  "newline = CHR 0x0A"

definition esc :: char where
  "esc = CHR 0x1B"

fun Split_newline :: "string \<Rightarrow> string list" where
  "Split_newline [] = [[]]"
| "Split_newline (c # cs) =
     (if c = newline then [] # Split_newline cs
      else (case Split_newline cs of [] \<Rightarrow> [[c]] | p # ps \<Rightarrow> (c # p) # ps))"

definition Trim :: "string \<Rightarrow> string \<Rightarrow> string" where
  "Trim s cutset =
     rev (dropWhile (\<lambda>c. c \<in> set cutset) (rev (dropWhile (\<lambda>c. c \<in> set cutset) s)))"

text \<open>
  The closure \<^verbatim>\<open>c\<close> of \<^verbatim>\<open>String\<close>: with \<^verbatim>\<open>colour\<close> set, every line of \<open>str\<close> is wrapped in
  the escape sequence \<open>col\<close> and the reset sequence, and the last newline is cut off again
  (\<^verbatim>\<open>cs[:len(cs)-1]\<close>; \<open>cs\<close> is never empty, since there is at least one line).
\<close>

definition colourise :: "bool \<Rightarrow> string \<Rightarrow> string \<Rightarrow> string" where
  "colourise colour str col =
     (if colour
      then (let cs = fold (\<lambda>s cs. cs @ col @ s @ (esc # ''[0m'') @ [newline]) (Split_newline str) []
            in take (length cs - 1) cs)
      else str)"

text \<open>
  \<^verbatim>\<open>fmt.Sprintf("%#v", a.Val)\<close>, the Go-syntax quoting of a string, belongs to the standard
  library: it is the parameter \<open>Sprintf_sharp_v\<close>.
\<close>

definition String_attrs :: "(string \<Rightarrow> string) \<Rightarrow> bool \<Rightarrow> Attribute list \<Rightarrow> string" where
  "String_attrs Sprintf_sharp_v colour as =
     fold (\<lambda>a attrs.
        let name = colourise colour (Key a) (esc # ''[33m'');
            sVal = Sprintf_sharp_v (Val a);
            name = (if AttrNamespace a \<noteq> []
                    then colourise colour (AttrNamespace a) (esc # ''[33m'') @ '':'' @ name
                    else name)
        in attrs @ '' '' @ name @ ''='' @ colourise colour sVal (esc # ''[36m'')) as []"

definition String :: "(string \<Rightarrow> string) \<Rightarrow> heap \<Rightarrow> ref option \<Rightarrow> bool \<Rightarrow> string" where
  "String Sprintf_sharp_v h n colour =
     (case n of
        None \<Rightarrow> []
      | Some a \<Rightarrow>
        (let red = esc # ''[31m''; gre = esc # ''[32m''; blu = esc # ''[34m'';
             mag = esc # ''[35m''; c = colourise colour
         in case Type (h a) of
              ErrorNode \<Rightarrow> c ''X '' mag @ c (Data (h a)) blu
            | TextNode \<Rightarrow> c ''T '' mag @ Data (h a)
            | DocumentNode \<Rightarrow> c ''R '' mag @ c (Data (h a)) blu
            | ElementNode \<Rightarrow>
                (let attrs = String_attrs Sprintf_sharp_v colour (Attr (h a));
                     name = c (Data (h a)) red;
                     name = (if Namespace (h a) \<noteq> []
                             then c (Namespace (h a)) red @ '':'' @ name else name)
                 in c ''E '' mag @ name @ attrs)
            | CommentNode \<Rightarrow> c ''C '' mag @ c (Data (h a)) gre
            | DoctypeNode \<Rightarrow> c ''D '' mag @ c (Data (h a)) blu))"

text \<open>
  The inner loop of \<^verbatim>\<open>PrintTree\<close>, \<^verbatim>\<open>for delta < 0 { indent = indent[:len(indent)-2]; delta++ }\<close>.
  The slice expression panics when \<^verbatim>\<open>len(indent)\<close> is below 2.
\<close>

datatype 'a go_result = Ok 'a | Panic

function PrintTree_unindent :: "string \<Rightarrow> int \<Rightarrow> string go_result" where
  "PrintTree_unindent indent delta =
     (if delta < 0
      then (if length indent < 2 then Panic
            else PrintTree_unindent (take (length indent - 2) indent) (delta + 1))
      else Ok indent)"
  by pat_completeness auto
termination
  by (relation "measure (\<lambda>(indent, delta). nat (- delta))") auto

text \<open>
  The \<^verbatim>\<open>io.Writer\<close> is the caller's: \<^verbatim>\<open>fmt.Fprintf(w, "%s%s\n", ...)\<close> is a parameter that
  takes the state of the writer and the formatted string and returns the new state and
  the error (\<open>None\<close> is nil).

  One pass through the body of \<^verbatim>\<open>for n != nil\<close> takes the loop state (indent, n and the
  writer) to the next state, or ends the function: with the error of \<^verbatim>\<open>Fprintf\<close>, with
  nil when \<open>n\<close> is nil, or with a panic of the slice expression. \<open>PrintTree_loop\<close> runs
  the body until the function ends; \<open>PrintTree_iter k\<close> runs it \<open>k\<close> times and gives the
  state at the head of the loop then.
\<close>

type_synonym ('w, 'e) writer = "'w \<Rightarrow> string \<Rightarrow> 'w \<times> 'e option"

record 'w pt_state =
  pt_indent :: string
  pt_n :: "ref option"
  pt_w :: 'w

datatype ('w, 'e) pt_step = Next_iteration "'w pt_state" | Return 'w "'e option" | Panicked 'w

definition PrintTree_body ::
  "('w, 'e) writer \<Rightarrow> (string \<Rightarrow> string) \<Rightarrow> heap \<Rightarrow> ref option \<Rightarrow> bool \<Rightarrow> 'w pt_state \<Rightarrow>
   ('w, 'e) pt_step option" where
  "PrintTree_body Fprintf Sprintf_sharp_v h root colour s =
     (case pt_n s of
        None \<Rightarrow> Some (Return (pt_w s) None)
      | Some a \<Rightarrow>
        (let (w', err) =
               (if Type (h a) \<noteq> TextNode \<or>
                   Trim (Data (h a)) [CHR 0x0D, newline, CHR 0x09, CHR '' ''] \<noteq> []
                then Fprintf (pt_w s)
                       (pt_indent s @ String Sprintf_sharp_v h (pt_n s) colour @ [newline])
                else (pt_w s, None))
         in if err \<noteq> None then Some (Return w' err)
            else Option.bind (Next h (pt_n s) root)
              (\<lambda>(n', delta).
                 if delta = 1
                 then Some (Next_iteration \<lparr>pt_indent = pt_indent s @ ''  '', pt_n = n', pt_w = w'\<rparr>)
                 else (case PrintTree_unindent (pt_indent s) delta of
                         Panic \<Rightarrow> Some (Panicked w')
                       | Ok indent' \<Rightarrow>
                           Some (Next_iteration \<lparr>pt_indent = indent', pt_n = n', pt_w = w'\<rparr>)))))"

partial_function (option) PrintTree_loop ::
  "('w, 'e) writer \<Rightarrow> (string \<Rightarrow> string) \<Rightarrow> heap \<Rightarrow> ref option \<Rightarrow> bool \<Rightarrow> 'w pt_state \<Rightarrow>
   ('w, 'e) pt_step option" where
  "PrintTree_loop Fprintf Sprintf_sharp_v h root colour s =
     Option.bind (PrintTree_body Fprintf Sprintf_sharp_v h root colour s)
       (\<lambda>r. case r of
               Next_iteration s' \<Rightarrow> PrintTree_loop Fprintf Sprintf_sharp_v h root colour s'
             | _ \<Rightarrow> Some r)"

definition PrintTree ::
  "('w, 'e) writer \<Rightarrow> (string \<Rightarrow> string) \<Rightarrow> heap \<Rightarrow> 'w \<Rightarrow> ref option \<Rightarrow> bool \<Rightarrow>
   ('w, 'e) pt_step option" where
  "PrintTree Fprintf Sprintf_sharp_v h w root colour =
     PrintTree_loop Fprintf Sprintf_sharp_v h root colour \<lparr>pt_indent = [], pt_n = root, pt_w = w\<rparr>"

fun PrintTree_iter ::
  "('w, 'e) writer \<Rightarrow> (string \<Rightarrow> string) \<Rightarrow> heap \<Rightarrow> ref option \<Rightarrow> bool \<Rightarrow> nat \<Rightarrow>
   'w pt_state \<Rightarrow> ('w, 'e) pt_step option" where
  "PrintTree_iter Fprintf Sprintf_sharp_v h root colour 0 s = Some (Next_iteration s)"
| "PrintTree_iter Fprintf Sprintf_sharp_v h root colour (Suc k) s =
     Option.bind (PrintTree_iter Fprintf Sprintf_sharp_v h root colour k s)
       (\<lambda>r. case r of
               Next_iteration s' \<Rightarrow> PrintTree_body Fprintf Sprintf_sharp_v h root colour s'
             | _ \<Rightarrow> Some r)"

text \<open>
  For the proofs: a trace is safe from depth \<open>D\<close> when following its deltas never leads
  below depth 0 and no delta exceeds 1; \<open>levels\<close> pairs every node of a trace with the
  depth at which the traversal stands on it.
\<close>

fun safe :: "int \<Rightarrow> (ref \<times> int) list \<Rightarrow> bool" where
  "safe D [] = True"
| "safe D ((a, d) # tr) = (0 \<le> D + d \<and> d \<le> 1 \<and> safe (D + d) tr)"

fun levels :: "int \<Rightarrow> (ref \<times> int) list \<Rightarrow> (ref \<times> int) list" where
  "levels D [] = []"
| "levels D ((a, d) # tr) = (a, D) # levels (D + d) tr"

section \<open>The tree invariants\<close>

text \<open>
  A finite tree of addresses, and what it means for the store to hold it: every node of
  the tree has the parent, the siblings and the first and last child that the tree gives
  it. \<open>wf_tree\<close> leaves the links of the root itself open (the tree may be a subtree of a
  larger document) and asks that no address occurs twice.
\<close>

datatype tree = T ref "tree list"

fun root_of :: "tree \<Rightarrow> ref" where
  "root_of (T a ts) = a"

fun preorder :: "tree \<Rightarrow> ref list" where
  "preorder (T a ts) = a # concat (map preorder ts)"

fun postorder :: "tree \<Rightarrow> ref list" where
  "postorder (T a ts) = concat (map postorder ts) @ [a]"

fun mirror :: "tree \<Rightarrow> tree" where
  "mirror (T a ts) = T a (rev (map mirror ts))"

definition first_root :: "tree list \<Rightarrow> ref option" where
  "first_root ts = (case ts of [] \<Rightarrow> None | t # _ \<Rightarrow> Some (root_of t))"

definition last_root :: "tree list \<Rightarrow> ref option" where
  "last_root ts = (case rev ts of [] \<Rightarrow> None | t # _ \<Rightarrow> Some (root_of t))"

fun wf_node :: "heap \<Rightarrow> ref option \<Rightarrow> ref option \<Rightarrow> ref option \<Rightarrow> tree \<Rightarrow> bool"
and wf_sibs :: "heap \<Rightarrow> ref option \<Rightarrow> ref option \<Rightarrow> ref option \<Rightarrow> tree list \<Rightarrow> bool" where
  "wf_node h par prv nxt (T a ts) =
     (Parent (h a) = par \<and> PrevSibling (h a) = prv \<and> NextSibling (h a) = nxt \<and>
      FirstChild (h a) = first_root ts \<and> LastChild (h a) = last_root ts \<and>
      wf_sibs h (Some a) None None ts)"
| "wf_sibs h par prv nxt [] = True"
| "wf_sibs h par prv nxt (t # ts) =
     (wf_node h par prv (case ts of [] \<Rightarrow> nxt | u # _ \<Rightarrow> Some (root_of u)) t \<and>
      wf_sibs h par (Some (root_of t)) nxt ts)"

definition wf_tree :: "heap \<Rightarrow> tree \<Rightarrow> bool" where
  "wf_tree h t =
     (distinct (preorder t) \<and>
      wf_node h (Parent (h (root_of t))) (PrevSibling (h (root_of t)))
        (NextSibling (h (root_of t))) t)"

text \<open>
  The trace that a traversal of a tree should give: the nodes in pre-order; a node with
  children is left by a descent (+1), a childless node that has a next sibling by a step
  of delta 0, and the last node of a subtree by one ascent per level, \<open>e\<close> being the
  delta on leaving the whole tree (or, for \<open>annots\<close>, the last tree of the list).
\<close>

fun annot :: "int \<Rightarrow> tree \<Rightarrow> (ref \<times> int) list"
and annots :: "int \<Rightarrow> tree list \<Rightarrow> (ref \<times> int) list" where
  "annot e (T a ts) = (if ts = [] then [(a, e)] else (a, 1) # annots (e - 1) ts)"
| "annots e [] = []"
| "annots e (t # ts) = (if ts = [] then annot e t else annot 0 t @ annots e ts)"

text \<open>The nodes of a tree with their depth below the root (the root has depth \<open>d\<close>).\<close>

fun depths :: "nat \<Rightarrow> tree \<Rightarrow> (ref \<times> nat) list" where
  "depths d (T a ts) = (a, d) # concat (map (depths (Suc d)) ts)"

text \<open>The textual payload that \<^verbatim>\<open>Flatten\<close> takes from one node.\<close>

definition text_of :: "heap \<Rightarrow> ref \<Rightarrow> string" where
  "text_of h a = (if Type (h a) = TextNode then Data (h a) else [])"

text \<open>The text of a tree: the payloads of its nodes in pre-order.\<close>

definition flat :: "heap \<Rightarrow> tree \<Rightarrow> string" where
  "flat h t = concat (map (text_of h) (preorder t))"

text \<open>
  The store read from right to left: first and last child exchanged, next and previous
  sibling exchanged. \<^verbatim>\<open>Prev\<close> is \<^verbatim>\<open>Next\<close> with exactly these fields exchanged.
\<close>

definition mirror_heap :: "heap \<Rightarrow> heap" where
  "mirror_heap h =
     (\<lambda>a. (h a)\<lparr>FirstChild := LastChild (h a), LastChild := FirstChild (h a),
                PrevSibling := NextSibling (h a), NextSibling := PrevSibling (h a)\<rparr>)"

section \<open>A document and two probes\<close>

text \<open>
  A store used to run the functions on: at addresses 0 to 5 the document
  \<^verbatim>\<open><body><div id="menu"><a href="/doc/">Documents</a><a href="/pkg/">Packages</a></div></body>\<close>,
  at 6 and 7 the probe chain of \<^verbatim>\<open><div><a>\<close>, at 8 to 10 that of \<^verbatim>\<open><form><div><a>\<close>.
\<close>

definition doc_heap :: heap where
  "doc_heap =
     (\<lambda>_. zero_Node)
     (0 := zero_Node\<lparr>Type := ElementNode, Data := ''body'',
            FirstChild := Some 1, LastChild := Some 1\<rparr>,
      1 := zero_Node\<lparr>Type := ElementNode, Data := ''div'', Parent := Some 0,
            FirstChild := Some 2, LastChild := Some 4,
            Attr := [\<lparr>AttrNamespace = [], Key = ''id'', Val = ''menu''\<rparr>]\<rparr>,
      2 := zero_Node\<lparr>Type := ElementNode, Data := ''a'', Parent := Some 1,
            FirstChild := Some 3, LastChild := Some 3, NextSibling := Some 4,
            Attr := [\<lparr>AttrNamespace = [], Key = ''href'', Val = ''/doc/''\<rparr>]\<rparr>,
      3 := zero_Node\<lparr>Type := TextNode, Data := ''Documents'', Parent := Some 2\<rparr>,
      4 := zero_Node\<lparr>Type := ElementNode, Data := ''a'', Parent := Some 1,
            FirstChild := Some 5, LastChild := Some 5, PrevSibling := Some 2,
            Attr := [\<lparr>AttrNamespace = [], Key = ''href'', Val = ''/pkg/''\<rparr>]\<rparr>,
      5 := zero_Node\<lparr>Type := TextNode, Data := ''Packages'', Parent := Some 4\<rparr>,
      6 := zero_Node\<lparr>Type := ElementNode, Data := ''div'',
            FirstChild := Some 7, LastChild := Some 7\<rparr>,
      7 := zero_Node\<lparr>Type := ElementNode, Data := ''a'', Parent := Some 6\<rparr>,
      8 := zero_Node\<lparr>Type := ElementNode, Data := ''form'',
            FirstChild := Some 9, LastChild := Some 9\<rparr>,
      9 := zero_Node\<lparr>Type := ElementNode, Data := ''div'', Parent := Some 8,
            FirstChild := Some 10, LastChild := Some 10\<rparr>,
      10 := zero_Node\<lparr>Type := ElementNode, Data := ''a'', Parent := Some 9\<rparr>)"

definition doc_tree :: tree where
  "doc_tree = T 0 [T 1 [T 2 [T 3 []], T 4 [T 5 []]]]"

text \<open>
  A memory holding the example store, a parser that fails on every fragment, one that
  returns the root of the \<^verbatim>\<open><div><a>\<close> probe, a writer that discards its input and a
  stand-in for the quoting of attribute values.
\<close>

definition fail_parser :: "unit parser" where
  "fail_parser fragment ctx m = (([], Some ()), m)"

definition doc_parser :: "unit parser" where
  "doc_parser fragment ctx m = (([Some 6], None), m)"

definition doc_mem :: mem where
  "doc_mem = \<lparr>nodes = doc_heap, top = 11\<rparr>"

definition null_writer :: "(unit, unit) writer" where
  "null_writer w s = (w, None)"

definition doc_mem_failed :: mem where
  "doc_mem_failed =
     \<lparr>nodes = doc_heap(11 := zero_Node\<lparr>Type := ElementNode\<rparr>, 12 := zero_Node\<lparr>Type := ErrorNode\<rparr>),
      top = 13\<rparr>"

definition quote_plain :: "string \<Rightarrow> string" where
  "quote_plain s = ''\"'' @ s @ ''\"''"


section \<open>The example store, node by node\<close>

lemma doc_nodes:
  "doc_heap 0 = zero_Node\<lparr>Type := ElementNode, Data := ''body'',
            FirstChild := Some 1, LastChild := Some 1\<rparr>"
  "doc_heap (Suc 0) = zero_Node\<lparr>Type := ElementNode, Data := ''div'', Parent := Some 0,
            FirstChild := Some 2, LastChild := Some 4,
            Attr := [\<lparr>AttrNamespace = [], Key = ''id'', Val = ''menu''\<rparr>]\<rparr>"
  "doc_heap 1 = doc_heap (Suc 0)"
  "doc_heap 2 = zero_Node\<lparr>Type := ElementNode, Data := ''a'', Parent := Some 1,
            FirstChild := Some 3, LastChild := Some 3, NextSibling := Some 4,
            Attr := [\<lparr>AttrNamespace = [], Key = ''href'', Val = ''/doc/''\<rparr>]\<rparr>"
  "doc_heap 3 = zero_Node\<lparr>Type := TextNode, Data := ''Documents'', Parent := Some 2\<rparr>"
  "doc_heap 4 = zero_Node\<lparr>Type := ElementNode, Data := ''a'', Parent := Some 1,
            FirstChild := Some 5, LastChild := Some 5, PrevSibling := Some 2,
            Attr := [\<lparr>AttrNamespace = [], Key = ''href'', Val = ''/pkg/''\<rparr>]\<rparr>"
  "doc_heap 5 = zero_Node\<lparr>Type := TextNode, Data := ''Packages'', Parent := Some 4\<rparr>"
  "doc_heap 6 = zero_Node\<lparr>Type := ElementNode, Data := ''div'',
            FirstChild := Some 7, LastChild := Some 7\<rparr>"
  "doc_heap 7 = zero_Node\<lparr>Type := ElementNode, Data := ''a'', Parent := Some 6\<rparr>"
  "doc_heap 8 = zero_Node\<lparr>Type := ElementNode, Data := ''form'',
            FirstChild := Some 9, LastChild := Some 9\<rparr>"
  "doc_heap 9 = zero_Node\<lparr>Type := ElementNode, Data := ''div'', Parent := Some 8,
            FirstChild := Some 10, LastChild := Some 10\<rparr>"
  "doc_heap 10 = zero_Node\<lparr>Type := ElementNode, Data := ''a'', Parent := Some 9\<rparr>"
  by (simp_all add: doc_heap_def)

lemma doc_tree_wf: "wf_tree doc_heap doc_tree"
  by (simp add: wf_tree_def doc_tree_def doc_nodes zero_Node_def first_root_def last_root_def)

section \<open>Properties of Compare\<close>

lemma attr_map_dom: "attr_map as x = (if x \<in> set as then Some () else None)"
proof -
  have "fold (\<lambda>a am. am(a \<mapsto> ())) as m x = (if x \<in> set as then Some () else m x)" for m
    by (induction as arbitrary: m) auto
  then show ?thesis by (simp add: attr_map_def)
qed

lemma attrs_present_iff: "attrs_present am as = (\<forall>a \<in> set as. am a \<noteq> None)"
  by (induction as) auto

lemma Compare_attrs: "attrs_present (attr_map as) bs = (set bs \<subseteq> set as)"
  by (auto simp: attrs_present_iff attr_map_dom)

lemma Compare_Some: "Compare h n1 n2 \<Longrightarrow> n1 \<noteq> None \<and> n2 \<noteq> None"
  by (auto simp: Compare_def split: option.splits)

lemma Compare_Type: "Compare h (Some a) (Some b) \<Longrightarrow> Type (h a) = Type (h b)"
  by (auto simp: Compare_def split: if_splits)

text \<open>
  Claim C2. \<^verbatim>\<open>Compare(a, b)\<close> is false when either pointer is nil, false unless type, data
  and namespace are equal, and otherwise true exactly when every attribute triple of \<open>b\<close>
  is one of the attribute triples of \<open>a\<close>; attributes only \<open>a\<close> has play no part.
\<close>

theorem Compare_iff:
  "Compare h n1 n2 =
     (\<exists>a b. n1 = Some a \<and> n2 = Some b \<and> Type (h a) = Type (h b) \<and> Data (h a) = Data (h b) \<and>
        Namespace (h a) = Namespace (h b) \<and> set (Attr (h b)) \<subseteq> set (Attr (h a)))"
  by (auto simp: Compare_def Compare_attrs split: option.splits)

text \<open>
  In the example the target \<^verbatim>\<open><a href="/doc/">\<close> (node 2) matches the pattern \<^verbatim>\<open><a>\<close>
  (node 7), which has fewer attributes, but not the other way round.
\<close>

theorem Compare_iff_witness:
  "Compare doc_heap (Some 2) (Some 7) \<and> \<not> Compare doc_heap (Some 7) (Some 2) \<and>
   \<not> Compare doc_heap None (Some 7) \<and> \<not> Compare doc_heap (Some 2) None \<and>
   \<not> Compare doc_heap (Some 1) (Some 7)"
  using Compare_iff[of doc_heap "Some 2" "Some 7"] Compare_iff[of doc_heap "Some 7" "Some 2"]
    Compare_iff[of doc_heap None "Some 7"] Compare_iff[of doc_heap "Some 2" None]
    Compare_iff[of doc_heap "Some 1" "Some 7"]
  by (simp add: doc_nodes zero_Node_def)

text \<open>
  Claim C7. \<^verbatim>\<open>Compare(n, n)\<close> is true for every node \<open>n\<close>, whatever its attribute list
  (duplicates included).
\<close>

theorem Compare_refl: "Compare h (Some a) (Some a)"
  by (simp add: Compare_def Compare_attrs)

theorem Compare_refl_witness: "Compare doc_heap (Some 1) (Some 1)"
  using Compare_refl[of doc_heap 1] by simp

section \<open>Properties of Match\<close>

lemma ancestor_two:
  "ancestor h 2 (Some a) = (case Parent (h a) of None \<Rightarrow> None | Some b \<Rightarrow> Parent (h b))"
  by (simp add: numeral_2_eq_2 split: option.splits)

lemma all_less_two: "(\<forall>j<(2::nat). P j) = (P 0 \<and> P (Suc 0))"
  by (auto simp: less_2_cases_iff)

lemma Match_fail:
  "ancestor h k n1 = Some a \<Longrightarrow> ancestor h k n2 = Some b \<Longrightarrow> \<not> Compare h (Some a) (Some b)
   \<Longrightarrow> Match h n1 n2 = Some False"
proof (induction k arbitrary: n1 n2)
  case 0
  then show ?case by (simp add: Match.simps)
next
  case (Suc k)
  then obtain x y where xy: "n1 = Some x" "n2 = Some y"
    by (auto split: option.splits)
  show ?case
  proof (cases "Compare h n1 n2")
    case True
    with Suc xy show ?thesis by (subst Match.simps) simp
  next
    case False
    with xy show ?thesis by (subst Match.simps) simp
  qed
qed

lemma Match_all:
  "\<forall>j<k. Compare h (ancestor h j n1) (ancestor h j n2) \<Longrightarrow>
   Match h n1 n2 = Match h (ancestor h k n1) (ancestor h k n2)"
proof (induction k arbitrary: n1 n2)
  case 0
  then show ?case by simp
next
  case (Suc k)
  from Suc.prems have c0: "Compare h n1 n2" by force
  then obtain x y where xy: "n1 = Some x" "n2 = Some y"
    using Compare_Some by blast
  have "\<forall>j<k. Compare h (ancestor h j (Parent (h x))) (ancestor h j (Parent (h y)))"
  proof (intro allI impI)
    fix j assume "j < k"
    then have "Compare h (ancestor h (Suc j) n1) (ancestor h (Suc j) n2)"
      using Suc.prems by (meson Suc_less_eq)
    then show "Compare h (ancestor h j (Parent (h x))) (ancestor h j (Parent (h y)))"
      by (simp add: xy)
  qed
  from Suc.IH[OF this] c0 show ?case
    by (subst Match.simps) (simp add: xy)
qed

text \<open>
  Claim C1. \<^verbatim>\<open>Match\<close> walks both parent chains in lock-step and returns: false as soon as
  \<^verbatim>\<open>Compare\<close> fails at a step where both nodes are present (whatever lies above that
  step); true when all steps up to the end of the chain of \<open>n2\<close> compared equal (the
  chain of \<open>n1\<close> ending at the same step or later); false when all steps compared equal
  and the chain of \<open>n1\<close> ends strictly first.
\<close>

theorem Match_lockstep:
  "(\<forall>a b. ancestor h k n1 = Some a \<and> ancestor h k n2 = Some b \<and> \<not> Compare h (Some a) (Some b)
      \<longrightarrow> Match h n1 n2 = Some False) \<and>
   ((\<forall>j<k. Compare h (ancestor h j n1) (ancestor h j n2)) \<and> ancestor h k n2 = None
      \<longrightarrow> Match h n1 n2 = Some True) \<and>
   ((\<forall>j<k. Compare h (ancestor h j n1) (ancestor h j n2)) \<and> ancestor h k n1 = None \<and>
      ancestor h k n2 \<noteq> None \<longrightarrow> Match h n1 n2 = Some False)"
proof (intro conjI allI impI)
  fix a b
  assume "ancestor h k n1 = Some a \<and> ancestor h k n2 = Some b \<and> \<not> Compare h (Some a) (Some b)"
  then show "Match h n1 n2 = Some False" using Match_fail by blast
next
  assume "(\<forall>j<k. Compare h (ancestor h j n1) (ancestor h j n2)) \<and> ancestor h k n2 = None"
  then show "Match h n1 n2 = Some True"
    using Match_all[of k h n1 n2] by (simp add: Match.simps split: option.splits)
next
  assume "(\<forall>j<k. Compare h (ancestor h j n1) (ancestor h j n2)) \<and> ancestor h k n1 = None \<and>
      ancestor h k n2 \<noteq> None"
  then show "Match h n1 n2 = Some False"
    using Match_all[of k h n1 n2] by (auto simp add: Match.simps split: option.splits)
qed

text \<open>
  In the example: \<^verbatim>\<open><a href="/doc/">\<close> (node 2) against the probe of \<^verbatim>\<open><form><div><a>\<close>
  (node 10) fails at the third step, body against form; against the probe of
  \<^verbatim>\<open><div><a>\<close> (node 7) it matches, the probe chain ending after two steps; the
  two-node chain of node 7 is too short for the three-node probe chain of node 10.
\<close>

theorem Match_lockstep_witness:
  "(ancestor doc_heap 2 (Some 2) = Some 0 \<and> ancestor doc_heap 2 (Some 10) = Some 8 \<and>
    \<not> Compare doc_heap (Some 0) (Some 8) \<and> Match doc_heap (Some 2) (Some 10) = Some False) \<and>
   (Compare doc_heap (Some 2) (Some 7) \<and> Compare doc_heap (Some 1) (Some 6) \<and>
    ancestor doc_heap 2 (Some 7) = None \<and> Match doc_heap (Some 2) (Some 7) = Some True) \<and>
   (Compare doc_heap (Some 7) (Some 10) \<and> Compare doc_heap (Some 6) (Some 9) \<and>
    ancestor doc_heap 2 (Some 7) = None \<and> ancestor doc_heap 2 (Some 10) \<noteq> None \<and>
    Match doc_heap (Some 7) (Some 10) = Some False)"
proof -
  have a1: "ancestor doc_heap 2 (Some 2) = Some 0" "ancestor doc_heap 2 (Some 10) = Some 8"
    "ancestor doc_heap 2 (Some 7) = None"
    by (simp_all add: ancestor_two doc_nodes zero_Node_def)
  have c1: "\<not> Compare doc_heap (Some 0) (Some 8)"
    by (simp add: Compare_def doc_nodes zero_Node_def)
  have c2: "\<forall>j<2. Compare doc_heap (ancestor doc_heap j (Some 2)) (ancestor doc_heap j (Some 7))"
    by (simp add: all_less_two Compare_def attr_map_def doc_nodes zero_Node_def)
  have c3: "\<forall>j<2. Compare doc_heap (ancestor doc_heap j (Some 7)) (ancestor doc_heap j (Some 10))"
    by (simp add: all_less_two Compare_def attr_map_def doc_nodes zero_Node_def)
  show ?thesis
    using Match_lockstep[of doc_heap 2 "Some 2" "Some 10"]
      Match_lockstep[of doc_heap 2 "Some 2" "Some 7"]
      Match_lockstep[of doc_heap 2 "Some 7" "Some 10"] a1 c1 c2 c3
    by (simp add: all_less_two doc_nodes zero_Node_def)
qed

text \<open>
  Claim C5, as the code has it. With a nil candidate \<^verbatim>\<open>Match\<close> returns false for every
  non-nil probe and true for the nil probe; it returns in both cases.
\<close>

theorem Match_nil_candidate:
  "Match h None (Some b) = Some False \<and> Match h None None = Some True"
  by (simp add: Match.simps)

theorem Match_nil_candidate_witness:
  "Match doc_heap None (Some 7) = Some False \<and> Match doc_heap None None = Some True"
  using Match_nil_candidate[of doc_heap 7] by simp

text \<open>The claim as stated fails for the nil probe: \<^verbatim>\<open>Match(nil, nil)\<close> is true.\<close>

theorem Match_nil_nil_counterexample:
  "Match doc_heap None None = Some True \<and> Match doc_heap None None \<noteq> Some False"
  by (simp add: Match.simps)

section \<open>The forward traversal of a well-formed tree\<close>

lemma Next_trace_None: "Next_trace h None root = Some []"
  by (simp add: Next_trace.simps)

lemma Next_trace_step:
  "Next h (Some a) root = Some (n', d) \<Longrightarrow>
   Next_trace h (Some a) root = Option.bind (Next_trace h n' root) (\<lambda>tr. Some ((a, d) # tr))"
  by (subst Next_trace.simps) simp

lemma trace_head:
  "Next_trace h (Some a) root = Some tr \<Longrightarrow>
   \<exists>n' d tr'. tr = (a, d) # tr' \<and> Next h (Some a) root = Some (n', d) \<and>
      Next_trace h n' root = Some tr'"
  by (subst (asm) Next_trace.simps) (auto split: Option.bind_splits)

lemma trace_nil: "Next_trace h None root = Some tr \<Longrightarrow> tr = []"
  by (simp add: Next_trace_None)


lemma Next_leaf: "FirstChild (h a) = None \<Longrightarrow> Next h (Some a) root = Next_up h a root 0"
  by (simp add: Next_def)

lemma Next_inner: "FirstChild (h a) = Some c \<Longrightarrow> Next h (Some a) root = Some (Some c, 1)"
  by (simp add: Next_def)

lemma Next_up_sibling:
  "NextSibling (h a) = Some s \<Longrightarrow> Some a \<noteq> root \<Longrightarrow> Next_up h a root d = Some (Some s, d)"
  by (subst Next_up.simps) simp

lemma Next_up_parent:
  "NextSibling (h a) = None \<Longrightarrow> Parent (h a) = Some p \<Longrightarrow> Some a \<noteq> root \<Longrightarrow>
   Next_up h a root d = Next_up h p root (d - 1)"
  by (subst Next_up.simps) simp

lemma Next_up_root: "Next_up h a (Some a) d = Some (None, d)"
  by (subst Next_up.simps) (simp split: option.splits)

lemma Next_up_top:
  "NextSibling (h a) = None \<Longrightarrow> Parent (h a) = None \<Longrightarrow> Next_up h a root d = Some (None, d)"
  by (subst Next_up.simps) simp

lemma bind_bind_trace:
  "Option.bind (Option.bind x (\<lambda>tr. Some (ys @ tr))) (\<lambda>tr. Some (xs @ tr)) =
   Option.bind x (\<lambda>tr. Some ((xs @ ys) @ tr))"
  by (cases x) simp_all

lemma wf_node_links:
  "wf_node h par prv nxt t \<Longrightarrow>
   Parent (h (root_of t)) = par \<and> PrevSibling (h (root_of t)) = prv \<and>
   NextSibling (h (root_of t)) = nxt"
  by (cases t) simp

lemma wf_sibs_last:
  "wf_sibs h par prv nxt ts \<Longrightarrow> ts \<noteq> [] \<Longrightarrow>
   Parent (h (root_of (last ts))) = par \<and> NextSibling (h (root_of (last ts))) = nxt"
proof (induction ts arbitrary: prv)
  case Nil
  then show ?case by simp
next
  case (Cons t ts)
  show ?case
  proof (cases "ts = []")
    case True
    with Cons.prems have "wf_node h par prv nxt t" by simp
    from wf_node_links[OF this] True show ?thesis by simp
  next
    case False
    from Cons.prems have "wf_sibs h par (Some (root_of t)) nxt ts" by simp
    from Cons.IH[OF this False] False show ?thesis by simp
  qed
qed

lemma root_in_preorder: "root_of t \<in> set (preorder t)"
  by (cases t) simp

lemma trace_tree:
  "wf_node h par prv nxt t \<Longrightarrow> root \<notin> Some ` set (tl (preorder t)) \<Longrightarrow>
   (\<forall>d. Next_up h (root_of t) root d = Some (nx, d + e)) \<Longrightarrow>
   Next_trace h (Some (root_of t)) root =
     Option.bind (Next_trace h nx root) (\<lambda>tr. Some (annot e t @ tr))"
and trace_sibs:
  "wf_sibs h par prv nxt ts \<Longrightarrow> ts \<noteq> [] \<Longrightarrow> root \<notin> Some ` set (concat (map preorder ts)) \<Longrightarrow>
   (\<forall>d. Next_up h (root_of (last ts)) root d = Some (nx, d + e)) \<Longrightarrow>
   Next_trace h (first_root ts) root =
     Option.bind (Next_trace h nx root) (\<lambda>tr. Some (annots e ts @ tr))"
proof (induction h par prv nxt t and h par prv nxt ts
       arbitrary: nx e and nx e rule: wf_node_wf_sibs.induct)
  case (1 h par prv nxt a ts)
  show ?case
  proof (cases "ts = []")
    case True
    with "1.prems" have "Next h (Some a) root = Some (nx, e)"
      by (simp add: Next_leaf first_root_def)
    from Next_trace_step[OF this] True show ?thesis by simp
  next
    case False
    then obtain c where c: "first_root ts = Some c"
      by (cases ts) (auto simp: first_root_def)
    with "1.prems" have nx1: "Next h (Some a) root = Some (Some c, 1)"
      by (simp add: Next_inner)
    have sibs: "wf_sibs h (Some a) None None ts" using "1.prems" by simp
    have lastin: "root_of (last ts) \<in> set (concat (map preorder ts))"
      using False root_in_preorder[of "last ts"] by (auto intro!: bexI[of _ "last ts"])
    with "1.prems"(2) have nr: "Some (root_of (last ts)) \<noteq> root" by auto
    have ex: "\<forall>d. Next_up h (root_of (last ts)) root d = Some (nx, d + (e - 1))"
    proof
      fix d
      have "Next_up h (root_of (last ts)) root d = Next_up h a root (d - 1)"
        using wf_sibs_last[OF sibs False] nr by (intro Next_up_parent) auto
      then show "Next_up h (root_of (last ts)) root d = Some (nx, d + (e - 1))"
        using "1.prems"(3) by simp
    qed
    have "Next_trace h (first_root ts) root =
            Option.bind (Next_trace h nx root) (\<lambda>tr. Some (annots (e - 1) ts @ tr))"
    proof -
      have "root \<notin> Some ` set (concat (map preorder ts))"
        using "1.prems"(2) by auto
      from "1.IH"[OF sibs False this ex] show ?thesis .
    qed
    then have "Next_trace h (Some a) root =
        Option.bind (Option.bind (Next_trace h nx root) (\<lambda>tr. Some (annots (e - 1) ts @ tr)))
          (\<lambda>tr. Some ([(a, 1)] @ tr))"
      by (simp only: Next_trace_step[OF nx1] c append_Cons append_Nil)
    also have "\<dots> = Option.bind (Next_trace h nx root)
         (\<lambda>tr. Some (([(a, 1)] @ annots (e - 1) ts) @ tr))"
      by (rule bind_bind_trace)
    finally show ?thesis using False by (simp only: root_of.simps annot.simps if_False append_Cons append_Nil)
  qed
next
  case (2 h par prv nxt)
  then show ?case by simp
next
  case (3 h par prv nxt t ts)
  have fr: "first_root (t # ts) = Some (root_of t)" by (simp add: first_root_def)
  have nr: "root \<notin> Some ` set (tl (preorder t))"
    using "3.prems"(3) by (cases t) auto
  have nrt: "Some (root_of t) \<noteq> root"
    using "3.prems"(3) root_in_preorder[of t] by auto
  show ?case
  proof (cases "ts = []")
    case True
    with "3.prems" have wf: "wf_node h par prv nxt t" by simp
    from "3.prems"(4) True have ex: "\<forall>d. Next_up h (root_of t) root d = Some (nx, d + e)" by simp
    from "3.IH"(1)[OF _ nr ex] wf True fr show ?thesis by simp
  next
    case False
    then obtain u us where ts: "ts = u # us" by (cases ts) auto
    with "3.prems" have wf: "wf_node h par prv (Some (root_of u)) t"
      and sibs: "wf_sibs h par (Some (root_of t)) nxt ts" by simp_all
    have ex0: "\<forall>d. Next_up h (root_of t) root d = Some (Some (root_of u), d + 0)"
      using wf_node_links[OF wf] nrt by (simp add: Next_up_sibling)
    have step1: "Next_trace h (Some (root_of t)) root =
       Option.bind (Next_trace h (Some (root_of u)) root) (\<lambda>tr. Some (annot 0 t @ tr))"
      using "3.IH"(1)[OF _ nr ex0] wf ts by simp
    have ex: "\<forall>d. Next_up h (root_of (last ts)) root d = Some (nx, d + e)"
      using "3.prems"(4) False by simp
    have step2: "Next_trace h (first_root ts) root =
       Option.bind (Next_trace h nx root) (\<lambda>tr. Some (annots e ts @ tr))"
    proof -
      have "root \<notin> Some ` set (concat (map preorder ts))"
        using "3.prems"(3) by auto
      from "3.IH"(2)[OF sibs False this ex] show ?thesis .
    qed
    have fru: "first_root ts = Some (root_of u)" by (simp add: ts first_root_def)
    have "Next_trace h (Some (root_of t)) root =
       Option.bind (Option.bind (Next_trace h nx root) (\<lambda>tr. Some (annots e ts @ tr)))
         (\<lambda>tr. Some (annot 0 t @ tr))"
      by (simp only: step1 fru[symmetric] step2)
    also have "\<dots> = Option.bind (Next_trace h nx root) (\<lambda>tr. Some ((annot 0 t @ annots e ts) @ tr))"
      by (rule bind_bind_trace)
    finally show ?thesis using False by (simp only: fr annots.simps if_False)
  qed
qed


lemma trace_wf_node:
  assumes "wf_node h par prv nxt t" "root_of t \<notin> set (tl (preorder t))"
  shows "Next_trace h (Some (root_of t)) (Some (root_of t)) = Some (annot 0 t)"
proof -
  have nr: "Some (root_of t) \<notin> Some ` set (tl (preorder t))"
    using assms(2) by auto
  have "\<forall>d. Next_up h (root_of t) (Some (root_of t)) d = Some (None, d + 0)"
    by (simp add: Next_up_root)
  from trace_tree[OF assms(1) nr this] show ?thesis
    by (simp add: Next_trace_None)
qed

lemma distinct_root_tl: "distinct (preorder t) \<Longrightarrow> root_of t \<notin> set (tl (preorder t))"
  by (cases t) auto

lemma trace_wf_tree:
  assumes "wf_tree h t"
  shows "Next_trace h (Some (root_of t)) (Some (root_of t)) = Some (annot 0 t)"
proof -
  from assms have d: "distinct (preorder t)"
    and w: "wf_node h (Parent (h (root_of t))) (PrevSibling (h (root_of t)))
              (NextSibling (h (root_of t))) t"
    by (simp_all add: wf_tree_def)
  from trace_wf_node[OF w distinct_root_tl[OF d]] show ?thesis .
qed

lemma fst_annot: "map fst (annot e t) = preorder t"
  and fst_annots: "map fst (annots e ts) = concat (map preorder ts)"
  by (induction e t and e ts rule: annot_annots.induct) simp_all

lemma sum_annot: "sum_list (map snd (annot e t)) = e"
  and sum_annots: "ts \<noteq> [] \<Longrightarrow> sum_list (map snd (annots e ts)) = e"
  by (induction e t and e ts rule: annot_annots.induct) simp_all

text \<open>
  Claim C4. Over a complete forward traversal of a well-formed tree from its root, with
  that root as the bound, \<^verbatim>\<open>Next\<close> returns every time, the visited nodes are the
  pre-order of the tree, and the deltas, the one of the exhausted step included, add up
  to zero. From a nil root the traversal is empty and the sum is zero as well.
\<close>

theorem Next_deltas_sum_zero:
  "(wf_tree h t \<longrightarrow>
      (\<exists>tr. Next_trace h (Some (root_of t)) (Some (root_of t)) = Some tr \<and>
            map fst tr = preorder t \<and> sum_list (map snd tr) = 0)) \<and>
   (\<exists>tr. Next_trace h None None = Some tr \<and> sum_list (map snd tr) = 0)"
  by (simp add: trace_wf_tree fst_annot sum_annot Next_trace_None)

theorem Next_deltas_sum_zero_witness:
  "wf_tree doc_heap doc_tree \<and>
   (\<exists>tr. Next_trace doc_heap (Some 0) (Some 0) = Some tr \<and>
         map fst tr = [0, 1, 2, 3, 4, 5] \<and> sum_list (map snd tr) = 0)"
  using Next_deltas_sum_zero[of doc_heap doc_tree] doc_tree_wf
  by (simp add: doc_tree_def)

section \<open>Properties of Flatten\<close>

lemma Flatten_loop_trace:
  "Next_trace h n root = Some tr \<Longrightarrow>
   Flatten_loop h root n s = Some (s @ concat (map (text_of h) (map fst tr)))"
proof (induction tr arbitrary: n s)
  case Nil
  then show ?case
    by (subst Flatten_loop.simps, subst (asm) Next_trace.simps)
       (auto split: option.splits prod.splits Option.bind_splits)
next
  case (Cons x tr)
  from Cons.prems obtain a n' d where n: "n = Some a" and nx: "Next h (Some a) root = Some (n', d)"
    and tr: "Next_trace h n' root = Some tr" and x: "x = (a, d)"
    by (subst (asm) Next_trace.simps) (auto split: option.splits prod.splits Option.bind_splits)
  have acc: "(if Type (h a) = TextNode then s @ Data (h a) else s) = s @ text_of h a"
    by (simp add: text_of_def)
  show ?case
    using Cons.IH[OF tr] nx
    by (subst Flatten_loop.simps) (simp add: n x acc)
qed

lemma Flatten_wf_node:
  "wf_node h par prv nxt t \<Longrightarrow> distinct (preorder t) \<Longrightarrow>
   Flatten h (Some (root_of t)) = Some (flat h t)"
  using Flatten_loop_trace[OF trace_wf_node[OF _ distinct_root_tl], of h par prv nxt t "[]"]
  by (simp add: Flatten_def fst_annot flat_def)

lemma wf_sibs_member:
  "wf_sibs h par prv nxt ts \<Longrightarrow> c \<in> set ts \<Longrightarrow> \<exists>p n. wf_node h par p n c"
  by (induction ts arbitrary: prv) auto

lemma flat_children: "flat h (T a ts) = text_of h a @ concat (map (flat h) ts)"
  by (induction ts) (simp_all add: flat_def)

text \<open>
  Claim C8, as the code has it. \<^verbatim>\<open>Flatten\<close> of a well-formed subtree returns the
  payloads of its Text nodes in traversal order, nothing in between; that string is the
  payload of the root itself when the root is a Text node, followed by the results of
  \<^verbatim>\<open>Flatten\<close> on the children of the root, in child order.
\<close>

theorem Flatten_subtree:
  "wf_tree h (T a ts) \<Longrightarrow>
   Flatten h (Some a) = Some (concat (map (text_of h) (preorder (T a ts)))) \<and>
   (\<forall>c \<in> set ts. Flatten h (Some (root_of c)) = Some (flat h c)) \<and>
   Flatten h (Some a) = Some (text_of h a @ concat (map (flat h) ts))"
proof -
  assume wf: "wf_tree h (T a ts)"
  then have d: "distinct (preorder (T a ts))" and
    sibs: "wf_sibs h (Some a) None None ts"
    by (simp_all add: wf_tree_def)
  from wf have top: "Flatten h (Some a) = Some (flat h (T a ts))"
    using Flatten_wf_node[of h _ _ _ "T a ts"] by (auto simp: wf_tree_def)
  have kids: "\<forall>c \<in> set ts. Flatten h (Some (root_of c)) = Some (flat h c)"
  proof
    fix c assume c: "c \<in> set ts"
    from wf_sibs_member[OF sibs c] obtain p n where wc: "wf_node h (Some a) p n c" by blast
    from d c have "distinct (preorder c)" by (auto simp: distinct_concat_iff)
    from Flatten_wf_node[OF wc this] show "Flatten h (Some (root_of c)) = Some (flat h c)" .
  qed
  from top kids show ?thesis by (simp add: flat_def[of h "T a ts"] flat_children[symmetric] flat_def)
qed

text \<open>
  In the example, on the subtree of the \<^verbatim>\<open>div\<close> (node 1) with its two \<^verbatim>\<open>a\<close> children, and
  on a Text leaf (node 3).
\<close>

theorem Flatten_subtree_witness:
  "wf_tree doc_heap (T 1 [T 2 [T 3 []], T 4 [T 5 []]]) \<and>
   Flatten doc_heap (Some 1) = Some ''DocumentsPackages'' \<and>
   Flatten doc_heap (Some 2) = Some ''Documents'' \<and>
   Flatten doc_heap (Some 4) = Some ''Packages'' \<and>
   wf_tree doc_heap (T 3 []) \<and> Flatten doc_heap (Some 3) = Some ''Documents''"
  using Flatten_subtree[of doc_heap 1 "[T 2 [T 3 []], T 4 [T 5 []]]"]
    Flatten_subtree[of doc_heap 3 "[]"]
  by (simp add: wf_tree_def flat_def text_of_def doc_nodes zero_Node_def
      first_root_def last_root_def)

text \<open>
  The claim as stated leaves the root's own payload out: the Text node 3 has no
  children, so the concatenation over its children is empty, yet \<^verbatim>\<open>Flatten\<close> returns
  its payload.
\<close>

theorem Flatten_text_root_counterexample:
  "wf_tree doc_heap (T 3 []) \<and> FirstChild (doc_heap 3) = None \<and>
   Flatten doc_heap (Some 3) = Some ''Documents'' \<and>
   Flatten doc_heap (Some 3) \<noteq>
     Some (concat (map (\<lambda>c. the (Flatten doc_heap (Some (root_of c)))) []))"
  by (simp add: wf_tree_def Flatten_def Flatten_loop.simps Next_def Next_up.simps
      doc_nodes zero_Node_def first_root_def last_root_def)

section \<open>Prev is Next on the mirrored store\<close>

lemma mirror_heap_fields:
  "Parent (mirror_heap h a) = Parent (h a)"
  "FirstChild (mirror_heap h a) = LastChild (h a)"
  "LastChild (mirror_heap h a) = FirstChild (h a)"
  "NextSibling (mirror_heap h a) = PrevSibling (h a)"
  "PrevSibling (mirror_heap h a) = NextSibling (h a)"
  by (simp_all add: mirror_heap_def)

lemma mirror_heap_twice: "mirror_heap (mirror_heap h) = h"
  by (rule ext) (simp add: mirror_heap_def)

lemma Prev_up_imp_Next_up:
  assumes "Prev_up h n root d = Some y"
  shows "Next_up (mirror_heap h) n root d = Some y"
  apply (rule Prev_up.raw_induct
      [where P = "\<lambda>h n root d y. Next_up (mirror_heap h) n root d = Some y", OF _ assms])
  apply (subst Next_up.simps)
  apply (auto simp: mirror_heap_fields split: option.splits if_splits)
  done

lemma Next_up_imp_Prev_up:
  assumes "Next_up h n root d = Some y"
  shows "Prev_up (mirror_heap h) n root d = Some y"
  apply (rule Next_up.raw_induct
      [where P = "\<lambda>h n root d y. Prev_up (mirror_heap h) n root d = Some y", OF _ assms])
  apply (subst Prev_up.simps)
  apply (auto simp: mirror_heap_fields split: option.splits if_splits)
  done

lemma Prev_up_mirror: "Prev_up h n root d = Next_up (mirror_heap h) n root d"
proof (cases "Next_up (mirror_heap h) n root d")
  case None
  then show ?thesis
    using Prev_up_imp_Next_up[of h n root d] by (cases "Prev_up h n root d") auto
next
  case (Some y)
  from Next_up_imp_Prev_up[OF this] Some show ?thesis by (simp add: mirror_heap_twice)
qed

lemma Prev_mirror: "Prev h n root = Next (mirror_heap h) n root"
  by (simp add: Prev_def Next_def Prev_up_mirror mirror_heap_fields split: option.splits)

lemma Prev_trace_imp:
  assumes "Prev_trace h n root = Some y"
  shows "Next_trace (mirror_heap h) n root = Some y"
  apply (rule Prev_trace.raw_induct
      [where P = "\<lambda>h n root y. Next_trace (mirror_heap h) n root = Some y", OF _ assms])
  apply (subst Next_trace.simps)
  apply (auto simp: Prev_mirror split: option.splits prod.splits Option.bind_splits)
  done

lemma Next_trace_imp:
  assumes "Next_trace h n root = Some y"
  shows "Prev_trace (mirror_heap h) n root = Some y"
  apply (rule Next_trace.raw_induct
      [where P = "\<lambda>h n root y. Prev_trace (mirror_heap h) n root = Some y", OF _ assms])
  apply (subst Prev_trace.simps)
  apply (auto simp: Prev_mirror mirror_heap_twice split: option.splits prod.splits Option.bind_splits)
  done

lemma Prev_trace_mirror: "Prev_trace h n root = Next_trace (mirror_heap h) n root"
proof (cases "Next_trace (mirror_heap h) n root")
  case None
  then show ?thesis
    using Prev_trace_imp[of h n root] by (cases "Prev_trace h n root") auto
next
  case (Some y)
  from Next_trace_imp[OF this] Some show ?thesis by (simp add: mirror_heap_twice)
qed


lemma root_of_mirror: "root_of (mirror t) = root_of t"
  by (cases t) simp

lemma first_root_mirror: "first_root (rev (map mirror ts)) = last_root ts"
  by (induction ts rule: rev_induct) (simp_all add: first_root_def last_root_def root_of_mirror)

lemma last_root_mirror: "last_root (rev (map mirror ts)) = first_root ts"
  by (cases ts) (simp_all add: first_root_def last_root_def root_of_mirror rev_map)

lemma wf_sibs_snoc:
  "wf_sibs h par prv nxt (xs @ [t]) =
     (wf_sibs h par prv (Some (root_of t)) xs \<and>
      wf_node h par (case rev xs of [] \<Rightarrow> prv | u # _ \<Rightarrow> Some (root_of u)) nxt t)"
proof (induction xs arbitrary: prv)
  case Nil
  show ?case by simp
next
  case (Cons x xs)
  show ?case
  proof (cases xs)
    case Nil
    then show ?thesis by simp
  next
    case (Cons u us)
    have "(case rev (x # xs) of [] \<Rightarrow> prv | v # _ \<Rightarrow> Some (root_of v)) =
          (case rev xs of [] \<Rightarrow> Some (root_of x) | v # _ \<Rightarrow> Some (root_of v))"
      using Cons by (cases "rev us") simp_all
    then show ?thesis
      using Cons.IH[of "Some (root_of x)"] Cons by auto
  qed
qed

lemma wf_mirror:
  "wf_node h par prv nxt t \<Longrightarrow> wf_node (mirror_heap h) par nxt prv (mirror t)"
  and wf_sibs_mirror:
  "wf_sibs h par prv nxt ts \<Longrightarrow> wf_sibs (mirror_heap h) par nxt prv (rev (map mirror ts))"
proof (induction h par prv nxt t and h par prv nxt ts rule: wf_node_wf_sibs.induct)
  case (1 h par prv nxt a ts)
  then show ?case
    by (simp add: mirror_heap_fields first_root_mirror last_root_mirror)
next
  case (2 h par prv nxt)
  show ?case by simp
next
  case (3 h par prv nxt t ts)
  from "3.prems" have wn: "wf_node h par prv (case ts of [] \<Rightarrow> nxt | u # _ \<Rightarrow> Some (root_of u)) t"
    and ws: "wf_sibs h par (Some (root_of t)) nxt ts" by simp_all
  have eq: "(case map mirror ts of [] \<Rightarrow> nxt | u # _ \<Rightarrow> Some (root_of u)) =
            (case ts of [] \<Rightarrow> nxt | u # _ \<Rightarrow> Some (root_of u))"
    by (cases ts) (simp_all add: root_of_mirror)
  from "3.IH"(1)[OF wn] "3.IH"(2)[OF ws] show ?case
    by (simp add: wf_sibs_snoc eq root_of_mirror)
qed

lemma preorder_mirror: "preorder (mirror t) = rev (postorder t)"
proof (induction t)
  case (T a ts)
  have "map preorder (rev (map mirror ts)) = map rev (rev (map postorder ts))"
    using T by (simp add: rev_map)
  then show ?case by (simp add: rev_concat)
qed

lemma set_postorder: "set (postorder t) = set (preorder t)"
  by (induction t) auto


lemma mset_postorder: "mset (postorder t) = mset (preorder t)"
  by (induction t) (simp add: mset_concat map_idI cong: map_cong)

lemma Prev_trace_wf_tree:
  assumes "wf_tree h t"
  shows "Prev_trace h (Some (root_of t)) (Some (root_of t)) = Some (annot 0 (mirror t))"
proof -
  from assms have d: "distinct (preorder t)"
    and w: "wf_node h (Parent (h (root_of t))) (PrevSibling (h (root_of t)))
              (NextSibling (h (root_of t))) t"
    by (simp_all add: wf_tree_def)
  have "set (tl (preorder (mirror t))) = set (tl (preorder t))"
  proof (cases t)
    case (T a ts)
    have "set (concat (map preorder (rev (map mirror ts)))) = set (concat (map preorder ts))"
      by (auto simp: preorder_mirror set_postorder)
    then show ?thesis using T by simp
  qed
  with distinct_root_tl[OF d]
  have nr: "root_of (mirror t) \<notin> set (tl (preorder (mirror t)))"
    by (simp add: root_of_mirror)
  from trace_wf_node[OF wf_mirror[OF w] nr] show ?thesis
    by (simp add: Prev_trace_mirror root_of_mirror)
qed

text \<open>
  Claim C3, as the code has it. On a well-formed subtree, stepping with \<^verbatim>\<open>Next\<close> from
  the root visits the nodes in pre-order, and stepping with \<^verbatim>\<open>Prev\<close> from the root,
  same bound, visits them in the reverse of post-order, which is the pre-order of the
  tree with every child list reversed. Both walks visit every node once.
\<close>

theorem Prev_walk_is_mirrored_Next_walk:
  "wf_tree h t \<Longrightarrow>
   map_option (map fst) (Next_trace h (Some (root_of t)) (Some (root_of t))) =
     Some (preorder t) \<and>
   map_option (map fst) (Prev_trace h (Some (root_of t)) (Some (root_of t))) =
     Some (rev (postorder t)) \<and>
   rev (postorder t) = preorder (mirror t) \<and>
   mset (rev (postorder t)) = mset (preorder t)"
  by (simp add: trace_wf_tree Prev_trace_wf_tree fst_annot preorder_mirror mset_postorder)

theorem Prev_walk_is_mirrored_Next_walk_witness:
  "wf_tree doc_heap doc_tree \<and>
   map_option (map fst) (Next_trace doc_heap (Some 0) (Some 0)) = Some [0, 1, 2, 3, 4, 5] \<and>
   map_option (map fst) (Prev_trace doc_heap (Some 0) (Some 0)) = Some [0, 1, 4, 5, 2, 3]"
  using Prev_walk_is_mirrored_Next_walk[of doc_heap doc_tree] doc_tree_wf
  by (simp add: doc_tree_def)

text \<open>
  The claim as stated fails on the example: the forward walk from the root ends at
  node 5, and \<^verbatim>\<open>Prev\<close> from node 5 with the same bound gives 5, 2, 3 and then nil, not
  the forward walk reversed.
\<close>

theorem Prev_not_inverse_counterexample:
  "wf_tree doc_heap doc_tree \<and>
   map_option (map fst) (Next_trace doc_heap (Some 0) (Some 0)) = Some [0, 1, 2, 3, 4, 5] \<and>
   map_option (map fst) (Prev_trace doc_heap (Some 5) (Some 0)) = Some [5, 2, 3] \<and>
   rev [0, 1, 2, 3, 4, 5 :: nat] \<noteq> [5, 2, 3]"
proof -
  have "Next_trace doc_heap (Some 0) (Some 0) =
          Some [(0, 1), (1, 1), (2, 1), (3, - 1), (4, 1), (5, - 3)]"
    by (simp add: Next_trace.simps Next_def Next_up.simps doc_nodes zero_Node_def)
  moreover have "Prev_trace doc_heap (Some 5) (Some 0) = Some [(5, - 1), (2, 1), (3, - 3)]"
    by (simp add: Prev_trace.simps Prev_def Prev_up.simps doc_nodes zero_Node_def)
  ultimately show ?thesis using doc_tree_wf by simp
qed

section \<open>Properties of Leaf and Find\<close>

lemma Leaf_descend_leaf:
  assumes "Leaf_descend h n = Some l"
  shows "FirstChild (h l) = None"
  apply (rule Leaf_descend.raw_induct[where P = "\<lambda>h n l. FirstChild (h l) = None", OF _ assms])
  apply (auto split: option.splits)
  done

text \<open>
  Claim C9. Whenever \<^verbatim>\<open>Leaf\<close> returns a non-nil node, that node has no first child in
  the memory \<^verbatim>\<open>Leaf\<close> leaves behind: the probe handed to \<^verbatim>\<open>Match\<close> is the bottom of its
  ancestor chain.
\<close>

theorem Leaf_is_leaf:
  "Leaf ParseFragment fragment m = Some (Some n, m') \<Longrightarrow> FirstChild (nodes m' n) = None"
  by (auto simp: Leaf_def new_Node_def zero_Node_def Let_def dest: Leaf_descend_leaf
      split: prod.splits if_splits option.splits)

theorem Leaf_is_leaf_witness:
  "Leaf doc_parser ''<div><a>'' doc_mem = Some (Some 7, doc_mem\<lparr>nodes := doc_heap(11 := zero_Node\<lparr>Type := ElementNode\<rparr>), top := 12\<rparr>) \<and>
   FirstChild ((doc_heap(11 := zero_Node\<lparr>Type := ElementNode\<rparr>)) 7) = None"
proof -
  have "Leaf doc_parser ''<div><a>'' doc_mem =
     Some (Some 7, doc_mem\<lparr>nodes := doc_heap(11 := zero_Node\<lparr>Type := ElementNode\<rparr>), top := 12\<rparr>)"
    by (simp add: Leaf_def doc_parser_def doc_mem_def new_Node_def Leaf_descend.simps doc_nodes zero_Node_def)
  from this Leaf_is_leaf[OF this] show ?thesis by simp
qed

lemma Match_Compare_fails:
  "\<not> Compare h (Some a) (Some b) \<Longrightarrow> Match h (Some a) (Some b) = Some False"
  by (subst Match.simps) simp

lemma Find_loop_trace:
  "Next_trace h n root = Some tr \<Longrightarrow> \<forall>a \<in> set (map fst tr). Match h (Some a) n2 = Some (mt a) \<Longrightarrow>
   Find_loop h root n2 n res = Some (res @ filter mt (map fst tr))"
proof (induction tr arbitrary: n res)
  case Nil
  have "n = None"
  proof (cases n)
    case (Some a)
    with Nil.prems(1) trace_head[of h a root "[]"] show ?thesis by simp
  qed simp
  then show ?case by (subst Find_loop.simps) simp
next
  case (Cons x tr)
  from Cons.prems(1) obtain a where a: "n = Some a"
    by (cases n) (auto dest: trace_nil)
  from trace_head[OF Cons.prems(1)[unfolded a]] obtain n' d where
    x: "x = (a, d)" and nx: "Next h (Some a) root = Some (n', d)"
    and tr: "Next_trace h n' root = Some tr" by auto
  from Cons.prems(2) x have m: "Match h (Some a) n2 = Some (mt a)"
    and rest: "\<forall>a \<in> set (map fst tr). Match h (Some a) n2 = Some (mt a)" by simp_all
  show ?case
    using Cons.IH[OF tr rest] nx m
    by (subst Find_loop.simps) (simp add: a x)
qed


text \<open>
  Claim C6. When the parser reports an error or returns no roots, \<^verbatim>\<open>Leaf\<close> returns, and
  what it returns is a freshly allocated node of type \<^verbatim>\<open>ErrorNode\<close> with every other
  field zero. \<^verbatim>\<open>Compare\<close> of any node whose type is not \<^verbatim>\<open>ErrorNode\<close> against it is false,
  so \<^verbatim>\<open>Match\<close> is false there too, and \<^verbatim>\<open>Find\<close> over a well-formed tree without
  \<^verbatim>\<open>ErrorNode\<close> nodes returns the empty slice.
\<close>

theorem Leaf_error_sentinel:
  assumes "new_Node (zero_Node\<lparr>Type := ElementNode\<rparr>) m = (ctx, m1)"
    and "ParseFragment fragment ctx m1 = ((ns, err), m2)"
    and "err \<noteq> None \<or> length ns = 0"
  shows "\<exists>e m'. Leaf ParseFragment fragment m = Some (Some e, m') \<and>
           nodes m' e = zero_Node\<lparr>Type := ErrorNode\<rparr> \<and>
           (\<forall>a. Type (nodes m' a) \<noteq> ErrorNode \<longrightarrow>
              \<not> Compare (nodes m') (Some a) (Some e) \<and>
              Match (nodes m') (Some a) (Some e) = Some False) \<and>
           (\<forall>t. wf_tree (nodes m') t \<and> (\<forall>a \<in> set (preorder t). Type (nodes m' a) \<noteq> ErrorNode) \<longrightarrow>
              Find ParseFragment (Some (root_of t)) fragment m = Some ([], m'))"
proof -
  let ?e = "top m2"
  let ?m' = "m2\<lparr>nodes := (nodes m2)(top m2 := zero_Node\<lparr>Type := ErrorNode\<rparr>), top := Suc (top m2)\<rparr>"
  have L: "Leaf ParseFragment fragment m = Some (Some ?e, ?m')"
    using assms by (auto simp: Leaf_def new_Node_def)
  have e: "nodes ?m' ?e = zero_Node\<lparr>Type := ErrorNode\<rparr>" by simp
  have C: "\<not> Compare (nodes ?m') (Some a) (Some ?e)" if "Type (nodes ?m' a) \<noteq> ErrorNode" for a
    using that Compare_Type[of "nodes ?m'" a ?e] by auto
  have M: "Match (nodes ?m') (Some a) (Some ?e) = Some False"
    if "Type (nodes ?m' a) \<noteq> ErrorNode" for a
    using C[OF that] by (rule Match_Compare_fails)
  have F: "Find ParseFragment (Some (root_of t)) fragment m = Some ([], ?m')"
    if wf: "wf_tree (nodes ?m') t" and ne: "\<forall>a \<in> set (preorder t). Type (nodes ?m' a) \<noteq> ErrorNode"
    for t
  proof -
    have "\<forall>a \<in> set (map fst (annot 0 t)).
            Match (nodes ?m') (Some a) (Some ?e) = Some ((\<lambda>_. False) a)"
      using ne M by (simp add: fst_annot)
    from Find_loop_trace[OF trace_wf_tree[OF wf] this, of "[]"] L show ?thesis
      by (simp add: Find_def)
  qed
  from L e C M F show ?thesis by blast
qed

theorem Leaf_error_sentinel_witness:
  "Leaf fail_parser ''<tr><td>'' doc_mem = Some (Some 12, doc_mem_failed) \<and>
   Type (nodes doc_mem_failed 12) = ErrorNode \<and>
   \<not> Compare (nodes doc_mem_failed) (Some 2) (Some 12) \<and>
   Match (nodes doc_mem_failed) (Some 2) (Some 12) = Some False \<and>
   Find fail_parser (Some 0) ''<tr><td>'' doc_mem = Some ([], doc_mem_failed)"
proof -
  have L: "Leaf fail_parser ''<tr><td>'' doc_mem = Some (Some 12, doc_mem_failed)"
    by (simp add: Leaf_def fail_parser_def doc_mem_def doc_mem_failed_def new_Node_def)
  have n: "new_Node (zero_Node\<lparr>Type := ElementNode\<rparr>) doc_mem =
      (11, doc_mem\<lparr>nodes := doc_heap(11 := zero_Node\<lparr>Type := ElementNode\<rparr>), top := 12\<rparr>)"
    by (simp add: new_Node_def doc_mem_def)
  have p: "fail_parser ''<tr><td>'' 11
             (doc_mem\<lparr>nodes := doc_heap(11 := zero_Node\<lparr>Type := ElementNode\<rparr>), top := 12\<rparr>) =
           (([], Some ()), doc_mem\<lparr>nodes := doc_heap(11 := zero_Node\<lparr>Type := ElementNode\<rparr>), top := 12\<rparr>)"
    by (simp add: fail_parser_def)
  from Leaf_error_sentinel[where ParseFragment = fail_parser and fragment = "''<tr><td>''"
      and m = doc_mem and ns = "[]" and err = "Some ()", OF n p] L
  have sent: "nodes doc_mem_failed 12 = zero_Node\<lparr>Type := ErrorNode\<rparr>"
    and cm: "\<forall>a. Type (nodes doc_mem_failed a) \<noteq> ErrorNode \<longrightarrow>
              \<not> Compare (nodes doc_mem_failed) (Some a) (Some 12) \<and>
              Match (nodes doc_mem_failed) (Some a) (Some 12) = Some False"
    and fd: "\<forall>t. wf_tree (nodes doc_mem_failed) t \<and>
               (\<forall>a \<in> set (preorder t). Type (nodes doc_mem_failed a) \<noteq> ErrorNode) \<longrightarrow>
              Find fail_parser (Some (root_of t)) ''<tr><td>'' doc_mem = Some ([], doc_mem_failed)"
    by auto
  have t2: "Type (nodes doc_mem_failed 2) \<noteq> ErrorNode"
    by (simp add: doc_mem_failed_def doc_nodes zero_Node_def)
  have wf: "wf_tree (nodes doc_mem_failed) doc_tree"
    by (simp add: wf_tree_def doc_tree_def doc_mem_failed_def doc_nodes zero_Node_def
        first_root_def last_root_def)
  have ne: "\<forall>a \<in> set (preorder doc_tree). Type (nodes doc_mem_failed a) \<noteq> ErrorNode"
    by (simp add: doc_tree_def doc_mem_failed_def doc_nodes zero_Node_def)
  from fd wf ne have "Find fail_parser (Some (root_of doc_tree)) ''<tr><td>'' doc_mem =
      Some ([], doc_mem_failed)" by blast
  then have F: "Find fail_parser (Some 0) ''<tr><td>'' doc_mem = Some ([], doc_mem_failed)"
    by (simp add: doc_tree_def)
  from L sent cm t2 F show ?thesis by (simp add: zero_Node_def)
qed


section \<open>Properties of PrintTree\<close>

lemma Split_newline_nonempty: "Split_newline s \<noteq> []"
  by (induction s) (auto split: list.splits)

lemma colourise_fold_acc:
  "acc \<noteq> [] \<Longrightarrow> fold (\<lambda>s cs. cs @ col @ s @ rst @ [newline]) ss acc \<noteq> []"
  by (induction ss arbitrary: acc) simp_all

text \<open>The string that \<^verbatim>\<open>c\<close> slices with \<^verbatim>\<open>cs[:len(cs)-1]\<close> is never empty: no panic there.\<close>

lemma colourise_fold_nonempty:
  "fold (\<lambda>s cs. cs @ col @ s @ rst @ [newline]) (Split_newline str) [] \<noteq> []"
  using Split_newline_nonempty[of str]
  by (cases "Split_newline str") (simp_all add: colourise_fold_acc)

lemma safe_append: "safe D (xs @ ys) = (safe D xs \<and> safe (D + sum_list (map snd xs)) ys)"
  by (induction D xs rule: safe.induct) (simp_all add: add.assoc)

lemma levels_append: "levels D (xs @ ys) = levels D xs @ levels (D + sum_list (map snd xs)) ys"
  by (induction D xs rule: levels.induct) (simp_all add: add.assoc)

lemma safe_annot: "0 \<le> D \<Longrightarrow> e \<le> 0 \<Longrightarrow> 0 \<le> D + e \<Longrightarrow> safe D (annot e t)"
  and safe_annots: "0 \<le> D \<Longrightarrow> e \<le> 0 \<Longrightarrow> 0 \<le> D + e \<Longrightarrow> safe D (annots e ts)"
proof (induction e t and e ts arbitrary: D and D rule: annot_annots.induct)
  case (1 e a ts)
  show ?case
  proof (cases "ts = []")
    case True
    with 1 show ?thesis by simp
  next
    case False
    have "safe (D + 1) (annots (e - 1) ts)"
      using "1.prems" by (intro "1.IH"[OF False]) simp_all
    with False "1.prems" show ?thesis by simp
  qed
next
  case (2 e)
  show ?case by simp
next
  case (3 e t ts)
  show ?case
  proof (cases "ts = []")
    case True
    with 3 show ?thesis by simp
  next
    case False
    have "safe D (annot 0 t)" using "3.prems" by (intro "3.IH"(2)[OF False]) simp_all
    moreover have "safe D (annots e ts)" using "3.prems" by (intro "3.IH"(3)[OF False])
    ultimately show ?thesis using False by (simp add: safe_append sum_annot)
  qed
qed

lemma levels_annot:
  "levels (int D) (annot e t) = map (\<lambda>(a, k). (a, int k)) (depths D t)"
  and levels_annots:
  "levels (int D) (annots e ts) = concat (map (\<lambda>t. map (\<lambda>(a, k). (a, int k)) (depths D t)) ts)"
proof (induction e t and e ts arbitrary: D and D rule: annot_annots.induct)
  case (1 e a ts)
  show ?case
  proof (cases "ts = []")
    case True
    then show ?thesis by simp
  next
    case False
    have "levels (int D + 1) (annots (e - 1) ts) = levels (int (Suc D)) (annots (e - 1) ts)"
      by (simp add: add.commute)
    with "1.IH"[OF False, of "Suc D"] False show ?thesis
      by (simp add: map_concat comp_def del: of_nat_Suc)
  qed
next
  case (2 e)
  show ?case by simp
next
  case (3 e t ts)
  show ?case
  proof (cases "ts = []")
    case True
    with "3.IH"(1) show ?thesis by simp
  next
    case False
    with "3.IH"(2)[OF False, of D] "3.IH"(3)[OF False, of D] show ?thesis
      by (simp add: levels_append sum_annot)
  qed
qed

lemma unindent_length:
  "d \<le> 0 \<Longrightarrow> 0 \<le> int (length ind) + 2 * d \<Longrightarrow>
   \<exists>ind'. PrintTree_unindent ind d = Ok ind' \<and> int (length ind') = int (length ind) + 2 * d"
proof (induction ind d rule: PrintTree_unindent.induct)
  case (1 indent delta)
  show ?case
  proof (cases "delta < 0")
    case True
    with "1.prems" have len: "\<not> length indent < 2" by simp
    have "\<exists>ind'. PrintTree_unindent (take (length indent - 2) indent) (delta + 1) = Ok ind' \<and>
        int (length ind') = int (length (take (length indent - 2) indent)) + 2 * (delta + 1)"
      using True len "1.prems" by (intro "1.IH") simp_all
    then show ?thesis using True len
      by (subst PrintTree_unindent.simps) (auto simp del: PrintTree_unindent.simps)
  next
    case False
    with "1.prems" show ?thesis by simp
  qed
qed

lemma body_step:
  assumes n: "pt_n s = Some a" and nx: "Next h (Some a) root = Some (n', d)"
    and d: "0 \<le> D + d" "d \<le> 1" and len: "int (length (pt_indent s)) = 2 * D"
  shows "(\<exists>w' e. PrintTree_body Fprintf Sprintf_sharp_v h root colour s = Some (Return w' (Some e))) \<or>
         (\<exists>s'. PrintTree_body Fprintf Sprintf_sharp_v h root colour s = Some (Next_iteration s') \<and>
               pt_n s' = n' \<and> int (length (pt_indent s')) = 2 * (D + d))"
proof -
  obtain w' err where wr:
    "(if Type (h a) \<noteq> TextNode \<or>
         Trim (Data (h a)) [CHR 0x0D, newline, CHR 0x09, CHR '' ''] \<noteq> []
      then Fprintf (pt_w s) (pt_indent s @ String Sprintf_sharp_v h (pt_n s) colour @ [newline])
      else (pt_w s, None)) = (w', err)"
    by (cases "(if Type (h a) \<noteq> TextNode \<or>
         Trim (Data (h a)) [CHR 0x0D, newline, CHR 0x09, CHR '' ''] \<noteq> []
      then Fprintf (pt_w s) (pt_indent s @ String Sprintf_sharp_v h (pt_n s) colour @ [newline])
      else (pt_w s, None))") auto
  show ?thesis
  proof (cases err)
    case (Some e)
    with n wr show ?thesis by (simp add: PrintTree_body_def)
  next
    case None
    show ?thesis
    proof (cases "d = 1")
      case True
      with n wr None nx len show ?thesis by (simp add: PrintTree_body_def)
    next
      case False
      with d have "d \<le> 0" by simp
      moreover from d len have "0 \<le> int (length (pt_indent s)) + 2 * d" by simp
      ultimately obtain ind' where u: "PrintTree_unindent (pt_indent s) d = Ok ind'"
        and l: "int (length ind') = int (length (pt_indent s)) + 2 * d"
        using unindent_length by blast
      from n wr None nx False u l len show ?thesis
        by (simp add: PrintTree_body_def del: PrintTree_unindent.simps)
    qed
  qed
qed

lemma loop_returns:
  "Next_trace h n root = Some tr \<Longrightarrow> safe D tr \<Longrightarrow> pt_n s = n \<Longrightarrow>
   int (length (pt_indent s)) = 2 * D \<Longrightarrow>
   \<exists>w' err. PrintTree_loop Fprintf Sprintf_sharp_v h root colour s = Some (Return w' err)"
proof (induction tr arbitrary: n s D)
  case Nil
  have "n = None"
  proof (cases n)
    case (Some a)
    with Nil.prems(1) trace_head[of h a root "[]"] show ?thesis by simp
  qed simp
  with Nil.prems(3) show ?case
    by (subst PrintTree_loop.simps) (simp add: PrintTree_body_def)
next
  case (Cons x tr)
  from Cons.prems(1) obtain a where a: "n = Some a"
    by (cases n) (auto dest: trace_nil)
  from trace_head[OF Cons.prems(1)[unfolded a]] obtain n' d where
    x: "x = (a, d)" and nx: "Next h (Some a) root = Some (n', d)"
    and tr: "Next_trace h n' root = Some tr" by auto
  from Cons.prems(2) x have d: "0 \<le> D + d" "d \<le> 1" and sf: "safe (D + d) tr" by simp_all
  from body_step[OF _ nx d Cons.prems(4), of Fprintf Sprintf_sharp_v colour] Cons.prems(3) a
  consider w' e where "PrintTree_body Fprintf Sprintf_sharp_v h root colour s = Some (Return w' (Some e))"
    | s' where "PrintTree_body Fprintf Sprintf_sharp_v h root colour s = Some (Next_iteration s')"
        "pt_n s' = n'" "int (length (pt_indent s')) = 2 * (D + d)"
    by auto
  then show ?case
  proof cases
    case 1
    then show ?thesis by (subst PrintTree_loop.simps) simp
  next
    case 2
    from Cons.IH[OF tr sf 2(2) 2(3)] 2(1) show ?thesis
      by (subst PrintTree_loop.simps) simp
  qed
qed

lemma iter_invariant:
  assumes tr0: "Next_trace h n0 root = Some tr0" and sf: "safe 0 tr0"
  shows "PrintTree_iter Fprintf Sprintf_sharp_v h root colour k
           \<lparr>pt_indent = [], pt_n = n0, pt_w = w\<rparr> = Some r \<Longrightarrow>
         (case r of
            Next_iteration s \<Rightarrow>
              (\<exists>pre suf. tr0 = pre @ suf \<and> Next_trace h (pt_n s) root = Some suf \<and>
                 int (length (pt_indent s)) = 2 * sum_list (map snd pre))
          | Return w' err \<Rightarrow> True
          | Panicked w' \<Rightarrow> False)"
proof (induction k arbitrary: r)
  case 0
  then show ?case using tr0 by auto
next
  case (Suc k)
  from Suc.prems obtain r1 where r1: "PrintTree_iter Fprintf Sprintf_sharp_v h root colour k
           \<lparr>pt_indent = [], pt_n = n0, pt_w = w\<rparr> = Some r1"
    and r: "(case r1 of Next_iteration s' \<Rightarrow> PrintTree_body Fprintf Sprintf_sharp_v h root colour s'
             | _ \<Rightarrow> Some r1) = Some r"
    by (auto split: Option.bind_splits)
  show ?case
  proof (cases r1)
    case (Next_iteration s1)
    with Suc.IH[OF r1] obtain pre suf where ps: "tr0 = pre @ suf"
      and ts: "Next_trace h (pt_n s1) root = Some suf"
      and len: "int (length (pt_indent s1)) = 2 * sum_list (map snd pre)" by auto
    from r Next_iteration have b: "PrintTree_body Fprintf Sprintf_sharp_v h root colour s1 = Some r"
      by simp
    show ?thesis
    proof (cases "pt_n s1")
      case None
      with b show ?thesis by (auto simp: PrintTree_body_def)
    next
      case (Some a)
      from trace_head[OF ts[unfolded Some]] obtain n' d suf' where
        suf: "suf = (a, d) # suf'" and nx: "Next h (Some a) root = Some (n', d)"
        and tr': "Next_trace h n' root = Some suf'" by auto
      from sf ps suf have d: "0 \<le> sum_list (map snd pre) + d" "d \<le> 1"
        by (simp_all add: safe_append)
      from body_step[OF Some nx d len, of Fprintf Sprintf_sharp_v colour] b
      consider w' e where "r = Return w' (Some e)"
        | s' where "r = Next_iteration s'" "pt_n s' = n'"
          "int (length (pt_indent s')) = 2 * (sum_list (map snd pre) + d)"
        by auto
      then show ?thesis
      proof cases
        case 1
        then show ?thesis by simp
      next
        case 2
        have "tr0 = (pre @ [(a, d)]) @ suf'" using ps suf by simp
        moreover have "int (length (pt_indent s')) = 2 * sum_list (map snd (pre @ [(a, d)]))"
          using 2(3) by simp
        ultimately show ?thesis using 2(1,2) tr' by (auto simp del: append_assoc)
      qed
    qed
  next
    case (Return w' err)
    with r show ?thesis by auto
  next
    case (Panicked w')
    with Suc.IH[OF r1] show ?thesis by simp
  qed
qed


text \<open>
  Claim C10. On a well-formed tree \<^verbatim>\<open>PrintTree\<close> returns (with nil or the error of the
  writer) and never panics; at the head of the loop, after any number of iterations, the
  indentation is twice as long as the current node is deep below the root, and empty
  once the traversal is exhausted. With a nil root it returns nil at once.
\<close>

theorem PrintTree_indent_is_depth:
  assumes "wf_tree h t"
  shows "(\<exists>w' err. PrintTree Fprintf Sprintf_sharp_v h w (Some (root_of t)) colour =
            Some (Return w' err)) \<and>
         (\<forall>k r. PrintTree_iter Fprintf Sprintf_sharp_v h (Some (root_of t)) colour k
                  \<lparr>pt_indent = [], pt_n = Some (root_of t), pt_w = w\<rparr> = Some r \<longrightarrow>
            (case r of
               Next_iteration s \<Rightarrow>
                 (case pt_n s of
                    None \<Rightarrow> pt_indent s = []
                  | Some a \<Rightarrow> \<exists>d. (a, d) \<in> set (depths 0 t) \<and> length (pt_indent s) = 2 * d)
             | Return w' err \<Rightarrow> True
             | Panicked w' \<Rightarrow> False)) \<and>
         PrintTree Fprintf Sprintf_sharp_v h w None colour = Some (Return w None)"
proof (intro conjI allI impI)
  show "PrintTree Fprintf Sprintf_sharp_v h w None colour = Some (Return w None)"
    unfolding PrintTree_def by (subst PrintTree_loop.simps) (simp add: PrintTree_body_def)
next
  have tr0: "Next_trace h (Some (root_of t)) (Some (root_of t)) = Some (annot 0 t)"
    by (rule trace_wf_tree[OF assms])
  have sf: "safe 0 (annot 0 t)" by (rule safe_annot) simp_all
  show "\<exists>w' err. PrintTree Fprintf Sprintf_sharp_v h w (Some (root_of t)) colour =
            Some (Return w' err)"
    unfolding PrintTree_def by (rule loop_returns[OF tr0 sf]) simp_all
  fix k r
  assume it: "PrintTree_iter Fprintf Sprintf_sharp_v h (Some (root_of t)) colour k
                  \<lparr>pt_indent = [], pt_n = Some (root_of t), pt_w = w\<rparr> = Some r"
  note inv = iter_invariant[OF tr0 sf it]
  show "case r of
          Next_iteration s \<Rightarrow>
            (case pt_n s of
               None \<Rightarrow> pt_indent s = []
             | Some a \<Rightarrow> \<exists>d. (a, d) \<in> set (depths 0 t) \<and> length (pt_indent s) = 2 * d)
        | Return w' err \<Rightarrow> True
        | Panicked w' \<Rightarrow> False"
  proof (cases r)
    case (Next_iteration s)
    with inv obtain pre suf where ps: "annot 0 t = pre @ suf"
      and ts: "Next_trace h (pt_n s) (Some (root_of t)) = Some suf"
      and len: "int (length (pt_indent s)) = 2 * sum_list (map snd pre)" by auto
    show ?thesis
    proof (cases "pt_n s")
      case None
      with ts have "suf = []" by (simp add: Next_trace_None)
      with ps have "sum_list (map snd pre) = 0" using sum_annot[of 0 t] by simp
      with len None Next_iteration show ?thesis by simp
    next
      case (Some a)
      from trace_head[OF ts[unfolded Some]] obtain d suf' where suf: "suf = (a, d) # suf'"
        by auto
      have "levels 0 (annot 0 t) = levels 0 pre @ (a, sum_list (map snd pre)) # levels (sum_list (map snd pre) + d) suf'"
        by (simp add: ps suf levels_append)
      then have "(a, sum_list (map snd pre)) \<in> set (levels (int 0) (annot 0 t))" by simp
      then obtain k where k: "(a, k) \<in> set (depths 0 t)" "int k = sum_list (map snd pre)"
        unfolding levels_annot by auto
      with len have "length (pt_indent s) = 2 * k" by simp
      with k Some Next_iteration show ?thesis by auto
    qed
  next
    case (Return w' err)
    then show ?thesis by simp
  next
    case (Panicked w')
    with inv show ?thesis by simp
  qed
qed

lemma doc_iter3:
  "PrintTree_iter null_writer quote_plain doc_heap (Some 0) False (Suc (Suc (Suc 0)))
      \<lparr>pt_indent = [], pt_n = Some 0, pt_w = ()\<rparr> =
    Some (Next_iteration \<lparr>pt_indent = ''      '', pt_n = Some 3, pt_w = ()\<rparr>)"
  by (simp add: PrintTree_body_def null_writer_def Next_def doc_nodes zero_Node_def)

theorem PrintTree_indent_is_depth_witness:
  "wf_tree doc_heap doc_tree \<and>
   (\<exists>w' err. PrintTree null_writer quote_plain doc_heap () (Some 0) False = Some (Return w' err)) \<and>
   PrintTree_iter null_writer quote_plain doc_heap (Some 0) False (Suc (Suc (Suc 0)))
      \<lparr>pt_indent = [], pt_n = Some 0, pt_w = ()\<rparr> =
    Some (Next_iteration \<lparr>pt_indent = ''      '', pt_n = Some 3, pt_w = ()\<rparr>) \<and>
   (\<exists>d. (3, d) \<in> set (depths 0 doc_tree) \<and> length ''      '' = 2 * d)"
proof -
  note th = PrintTree_indent_is_depth[OF doc_tree_wf, of null_writer quote_plain "()" False]
  have r: "root_of doc_tree = 0" by (simp add: doc_tree_def)
  from th have 1: "\<exists>w' err. PrintTree null_writer quote_plain doc_heap () (Some 0) False = Some (Return w' err)"
    by (simp add: r)
  from th doc_iter3 have 2: "\<exists>d. (3, d) \<in> set (depths 0 doc_tree) \<and> length ''      '' = 2 * d"
    unfolding r by fastforce
  from 1 2 doc_iter3 doc_tree_wf show ?thesis by simp
qed


end
